theory Spec2Isabelle
  imports Complex_Main "HOL-Library.Log_Nat"
begin

section \<open>The counting semaphore of \<^verbatim>\<open>src/semaphore.ts\<close>\<close>

subsection \<open>Data\<close>

text \<open>
  The fields \<^verbatim>\<open>_permits\<close> and \<^verbatim>\<open>_maxPermits\<close> have the TypeScript type
  \<^verbatim>\<open>number\<close>, an IEEE 754 binary64 value. Every finite double is a rational, so a
  \<^verbatim>\<open>number\<close> is modelled by a rational; \<^verbatim>\<open>NaN\<close> and the two infinities are
  outside the model. The class compares numbers, which is exact, and applies
  \<^verbatim>\<open>--\<close> and \<^verbatim>\<open>++\<close>, which round their result to a double.

  The operations are given twice. \<open>acquire\<close> and \<open>release\<close> compute \<open>- 1\<close> and \<open>+ 1\<close>
  exactly; \<open>acquire64\<close> and \<open>release64\<close> round the result as the machine does
  (\<open>round_double\<close>). The two agree wherever the exact result is a double, which includes
  every counter that is an integer of magnitude at most \<open>2^53\<close>
  (\<open>acquire64_exact\<close>, \<open>release64_exact\<close>, \<open>is_double_of_int\<close>).
\<close>

type_synonym number = rat

subsection \<open>Rounding to binary64\<close>

text \<open>
  \<open>exponent x\<close> is the integer \<open>e\<close> with \<open>2^e \<le> |x| < 2^(e+1)\<close>, computed from the bit
  length of the integer part of \<open>|x|\<close>, or of \<open>1 / |x|\<close> when \<open>|x| < 1\<close>. A double has 53
  significant bits, so the doubles next to \<open>x\<close> are the multiples of
  \<open>ulp x = 2^(e - 52)\<close>, where the exponent is not taken below \<open>-1022\<close> (subnormal
  numbers share the spacing \<open>2^(-1074)\<close>). \<open>round_double\<close> is the default rounding of
  IEEE 754, to the nearest double and to the one with an even significand at a tie.
  A result of magnitude \<open>2^1024\<close> or more stands for an infinity; adding or subtracting
  one never produces it from a finite double.
\<close>

definition exponent :: "rat \<Rightarrow> int" where
  "exponent x =
     (if 1 \<le> \<bar>x\<bar> then bitlen \<lfloor>\<bar>x\<bar>\<rfloor> - 1 else - bitlen (\<lceil>1 / \<bar>x\<bar>\<rceil> - 1))"

definition ulp :: "rat \<Rightarrow> rat" where
  "ulp x = 2 powi (max (exponent x) (- 1022) - 52)"

definition round_even :: "rat \<Rightarrow> int" where
  "round_even q =
     (let f = \<lfloor>q\<rfloor>; d = q - of_int f
      in if d < 1/2 then f else if 1/2 < d then f + 1 else if even f then f else f + 1)"

definition round_double :: "rat \<Rightarrow> number" where
  "round_double x = (if x = 0 then 0 else of_int (round_even (x / ulp x)) * ulp x)"

text \<open>The rationals that are finite doubles.\<close>

definition is_double :: "rat \<Rightarrow> bool" where
  "is_double x = (round_double x = x \<and> \<bar>x\<bar> < 2 ^ 1024)"

text \<open>\<^verbatim>\<open>x--\<close> and \<^verbatim>\<open>x++\<close> on a field of type \<^verbatim>\<open>number\<close>: the new value of the
  field.\<close>

definition decrement :: "number \<Rightarrow> number" where
  "decrement x = round_double (x - 1)"

definition increment :: "number \<Rightarrow> number" where
  "increment x = round_double (x + 1)"

text \<open>\<^verbatim>\<open>interface SemaphoreOpts { debug?: boolean; name?: string }\<close>: both fields may be
  absent.\<close>

record SemaphoreOpts =
  opt_debug :: "bool option"
  opt_name :: "string option"

text \<open>
  The class. The type variable \<open>'w\<close> is the type of the entries of the array
  \<^verbatim>\<open>waiting\<close>: the \<^verbatim>\<open>resolve\<close> callbacks of the promises on which queued
  callers are suspended. The field names with a leading underscore are written with the
  prefix \<open>priv_\<close>.

  The field \<^verbatim>\<open>_lock\<close> has no counterpart. Between
  \<^verbatim>\<open>await this._acquireLock()\<close> and the end of the synchronous stretch that follows
  \<^verbatim>\<open>releaseLock()\<close> (for a queuing \<^verbatim>\<open>acquire\<close> this stretch includes the
  \<^verbatim>\<open>push\<close>, because the executor of \<^verbatim>\<open>new Promise\<close> runs at once) there is
  no \<^verbatim>\<open>await\<close>, so the body of every call runs to completion without interleaving,
  and the chain of promises in \<^verbatim>\<open>_lock\<close> admits the calls in the order in which they
  were made. A call is therefore one atomic step on the fields, and a history of the
  instance is the list of its calls in call order.
\<close>

record 'w Semaphore =
  priv_permits :: number
  waiting :: "'w list"
  priv_maxPermits :: number
  debug :: bool
  name :: string

text \<open>The only \<^verbatim>\<open>throw\<close> of the class is the \<^verbatim>\<open>Error\<close> of the constructor; the
  specification calls it \<open>InvalidArgument\<close>.\<close>

datatype error = Error string

definition InvalidArgument :: error where
  "InvalidArgument =
     Error ''Semaphore must be initialized with a non-negative number of permits.''"

subsection \<open>Operations\<close>

text \<open>
  The console output guarded by \<^verbatim>\<open>this.debug\<close> is not modelled: no branch that
  writes to the console reads or writes anything else.
\<close>

definition constructor :: "number \<Rightarrow> SemaphoreOpts \<Rightarrow> error + 'w Semaphore" where
  "constructor permits opts =
     (if permits < 0 then Inl InvalidArgument
      else Inr \<lparr> priv_permits = permits,
                 waiting = [],
                 priv_maxPermits = permits,
                 debug = (case opt_debug opts of None \<Rightarrow> False | Some b \<Rightarrow> b),
                 name = (case opt_name opts of None \<Rightarrow> [] | Some n \<Rightarrow> n) \<rparr>)"

text \<open>The getters \<^verbatim>\<open>permits\<close> and \<^verbatim>\<open>maxPermits\<close>.\<close>

definition permits :: "'w Semaphore \<Rightarrow> number" where
  "permits s = priv_permits s"

definition maxPermits :: "'w Semaphore \<Rightarrow> number" where
  "maxPermits s = priv_maxPermits s"

text \<open>
  \<^verbatim>\<open>acquire\<close> either returns at once (\<open>Granted\<close>) or sets \<^verbatim>\<open>shouldWait\<close>,
  pushes the \<^verbatim>\<open>resolve\<close> callback of a new promise and awaits that promise
  (\<open>Suspended\<close>). The callback is an argument of the model: it stands for the promise the
  call creates when it has to wait.
\<close>

datatype acquired = Granted | Suspended

definition acquire :: "'w \<Rightarrow> 'w Semaphore \<Rightarrow> acquired \<times> 'w Semaphore" where
  "acquire resolve s =
     (if priv_permits s > 0
      then (Granted, s\<lparr>priv_permits := priv_permits s - 1\<rparr>)
      else (Suspended, s\<lparr>waiting := waiting s @ [resolve]\<rparr>))"

text \<open>
  \<^verbatim>\<open>release\<close> returns no value and has no \<^verbatim>\<open>throw\<close>; its one effect besides
  the fields is the call \<^verbatim>\<open>resolve()\<close> of the callback taken by
  \<^verbatim>\<open>this.waiting.shift()\<close>. The model returns that callback (\<open>Some\<close>), or
  \<open>None\<close> when no callback is called. Every entry of the array is a callback, so
  \<^verbatim>\<open>shift()\<close> on a non-empty array is never \<^verbatim>\<open>undefined\<close>.
\<close>

definition release :: "'w Semaphore \<Rightarrow> 'w option \<times> 'w Semaphore" where
  "release s =
     (case waiting s of
        resolve # rest \<Rightarrow> (Some resolve, s\<lparr>waiting := rest\<rparr>)
      | [] \<Rightarrow>
          if priv_permits s < priv_maxPermits s
          then (None, s\<lparr>priv_permits := priv_permits s + 1\<rparr>)
          else (None, s))"

text \<open>The two methods with the arithmetic of the machine.\<close>

definition acquire64 :: "'w \<Rightarrow> 'w Semaphore \<Rightarrow> acquired \<times> 'w Semaphore" where
  "acquire64 resolve s =
     (if priv_permits s > 0
      then (Granted, s\<lparr>priv_permits := decrement (priv_permits s)\<rparr>)
      else (Suspended, s\<lparr>waiting := waiting s @ [resolve]\<rparr>))"

definition release64 :: "'w Semaphore \<Rightarrow> 'w option \<times> 'w Semaphore" where
  "release64 s =
     (case waiting s of
        resolve # rest \<Rightarrow> (Some resolve, s\<lparr>waiting := rest\<rparr>)
      | [] \<Rightarrow>
          if priv_permits s < priv_maxPermits s
          then (None, s\<lparr>priv_permits := increment (priv_permits s)\<rparr>)
          else (None, s))"

subsection \<open>Histories\<close>

text \<open>A call of one of the two methods, and the state after a list of calls made in
  that order.\<close>

datatype 'w call = Acquire 'w | Release

fun step :: "'w call \<Rightarrow> 'w Semaphore \<Rightarrow> 'w Semaphore" where
  "step (Acquire resolve) s = snd (acquire resolve s)"
| "step Release s = snd (release s)"

fun run :: "'w call list \<Rightarrow> 'w Semaphore \<Rightarrow> 'w Semaphore" where
  "run [] s = s"
| "run (c # cs) s = run cs (step c s)"

text \<open>The callbacks called by the releases of a history, in the order of the calls
  \<^verbatim>\<open>resolve()\<close>.\<close>

fun woken :: "'w call list \<Rightarrow> 'w Semaphore \<Rightarrow> 'w list" where
  "woken [] s = []"
| "woken (Acquire resolve # cs) s = woken cs (snd (acquire resolve s))"
| "woken (Release # cs) s =
     (case fst (release s) of
        Some resolve \<Rightarrow> resolve # woken cs (snd (release s))
      | None \<Rightarrow> woken cs (snd (release s)))"

text \<open>The callbacks of the acquires of a history that had to wait, in the order in
  which these acquires were called.\<close>

fun queued :: "'w call list \<Rightarrow> 'w Semaphore \<Rightarrow> 'w list" where
  "queued [] s = []"
| "queued (Acquire resolve # cs) s =
     (case fst (acquire resolve s) of
        Suspended \<Rightarrow> resolve # queued cs (snd (acquire resolve s))
      | Granted \<Rightarrow> queued cs (snd (acquire resolve s)))"
| "queued (Release # cs) s = queued cs (snd (release s))"

text \<open>Construction followed by a history.\<close>

definition history :: "number \<Rightarrow> SemaphoreOpts \<Rightarrow> 'w call list \<Rightarrow> error + 'w Semaphore" where
  "history n opts cs =
     (case constructor n opts of Inl e \<Rightarrow> Inl e | Inr s \<Rightarrow> Inr (run cs s))"

definition no_opts :: SemaphoreOpts where
  "no_opts = \<lparr> opt_debug = None, opt_name = None \<rparr>"

text \<open>The same with the arithmetic of the machine.\<close>

fun step64 :: "'w call \<Rightarrow> 'w Semaphore \<Rightarrow> 'w Semaphore" where
  "step64 (Acquire resolve) s = snd (acquire64 resolve s)"
| "step64 Release s = snd (release64 s)"

fun run64 :: "'w call list \<Rightarrow> 'w Semaphore \<Rightarrow> 'w Semaphore" where
  "run64 [] s = s"
| "run64 (c # cs) s = run64 cs (step64 c s)"

definition history64 :: "number \<Rightarrow> SemaphoreOpts \<Rightarrow> 'w call list \<Rightarrow> error + 'w Semaphore" where
  "history64 n opts cs =
     (case constructor n opts of Inl e \<Rightarrow> Inl e | Inr s \<Rightarrow> Inr (run64 cs s))"

section \<open>Single steps\<close>

lemma acquire_granted:
  "0 < priv_permits s \<Longrightarrow> acquire r s = (Granted, s\<lparr>priv_permits := priv_permits s - 1\<rparr>)"
  by (simp add: acquire_def)

lemma acquire_suspended:
  "\<not> 0 < priv_permits s \<Longrightarrow> acquire r s = (Suspended, s\<lparr>waiting := waiting s @ [r]\<rparr>)"
  by (simp add: acquire_def)

lemma release_head:
  "waiting s = r # rest \<Longrightarrow> release s = (Some r, s\<lparr>waiting := rest\<rparr>)"
  by (simp add: release_def)

lemma release_increment:
  "waiting s = [] \<Longrightarrow> priv_permits s < priv_maxPermits s \<Longrightarrow>
   release s = (None, s\<lparr>priv_permits := priv_permits s + 1\<rparr>)"
  by (simp add: release_def)

lemma release_saturated:
  "waiting s = [] \<Longrightarrow> \<not> priv_permits s < priv_maxPermits s \<Longrightarrow> release s = (None, s)"
  by (simp add: release_def)



lemma constructor_Inr:
  "constructor n opts = Inr s \<Longrightarrow>
   0 \<le> n \<and> priv_permits s = n \<and> priv_maxPermits s = n \<and> waiting s = []"
  by (auto simp: constructor_def split: if_splits)

lemma history_Inr:
  "history n opts cs = Inr s \<Longrightarrow> \<exists>s0. constructor n opts = Inr s0 \<and> s = run cs s0"
  by (auto simp: history_def split: sum.splits)

lemma step_maxPermits: "priv_maxPermits (step c s) = priv_maxPermits s"
  by (cases c) (auto simp: acquire_def release_def split: list.splits)

lemma run_maxPermits: "priv_maxPermits (run cs s) = priv_maxPermits s"
  by (induction cs arbitrary: s) (simp_all add: step_maxPermits)

lemma run_append: "run (cs @ ds) s = run ds (run cs s)"
  by (induction cs arbitrary: s) simp_all

section \<open>Invariants of the counter\<close>













section \<open>The two methods\<close>




text \<open>
  C5. A release in a state with an empty queue and \<open>permits = maxPermits\<close> (an
  over-release) returns normally, calls no callback and leaves every field as it was.
\<close>

theorem over_release_absorbed:
  assumes "waiting s = []" and "permits s = maxPermits s"
  shows "release s = (None, s)"
  using assms by (simp add: release_def permits_def maxPermits_def)

theorem over_release_absorbed_witness:
  "release \<lparr>priv_permits = 2, waiting = [] :: nat list, priv_maxPermits = 2,
            debug = False, name = []\<rparr> =
     (None, \<lparr>priv_permits = 2, waiting = [], priv_maxPermits = 2, debug = False, name = []\<rparr>)"
  using over_release_absorbed [of "\<lparr>priv_permits = 2, waiting = [] :: nat list,
                                    priv_maxPermits = 2, debug = False, name = []\<rparr>"]
  by (simp add: permits_def maxPermits_def)

section \<open>Construction and the capacity\<close>

lemma capacity_zero_stays_zero:
  "priv_permits s = 0 \<Longrightarrow> priv_maxPermits s = 0 \<Longrightarrow>
   priv_permits (run cs s) = 0 \<and> priv_maxPermits (run cs s) = 0"
proof (induction cs arbitrary: s)
  case Nil
  then show ?case by simp
next
  case (Cons c cs)
  have "priv_permits (step c s) = 0 \<and> priv_maxPermits (step c s) = 0"
    using Cons.prems by (cases c) (auto simp: acquire_def release_def split: list.splits)
  with Cons.IH [of "step c s"] show ?case by simp
qed

text \<open>
  C6. Construction with a negative capacity throws the error of the constructor and makes
  no instance. Construction with a capacity \<open>n \<ge> 0\<close>, zero included, makes an instance with
  \<open>permits = maxPermits = n\<close> and an empty queue. With capacity \<open>0\<close> an acquire made after
  any list of calls is queued: it can only resume through a release.
\<close>

theorem constructor_validates_capacity:
  "(n < 0 \<longrightarrow> constructor n opts = (Inl InvalidArgument :: error + 'w Semaphore)) \<and>
   (0 \<le> n \<longrightarrow> (\<exists>s :: 'w Semaphore. constructor n opts = Inr s \<and>
        permits s = n \<and> maxPermits s = n \<and> waiting s = [])) \<and>
   (history 0 opts cs = Inr (t :: 'w Semaphore) \<longrightarrow>
        acquire r t = (Suspended, t\<lparr>waiting := waiting t @ [r]\<rparr>))"
proof -
  have "acquire r t = (Suspended, t\<lparr>waiting := waiting t @ [r]\<rparr>)"
    if h: "history 0 opts cs = Inr t"
  proof -
    from history_Inr [OF h] obtain s0 where c: "constructor 0 opts = Inr s0" and t: "t = run cs s0"
      by blast
    from constructor_Inr [OF c] capacity_zero_stays_zero [of s0 cs] t
    have "priv_permits t = 0" by simp
    then show ?thesis by (simp add: acquire_def)
  qed
  then show ?thesis by (simp add: constructor_def permits_def maxPermits_def)
qed

theorem constructor_validates_capacity_witness:
  "constructor (- 1) no_opts = (Inl InvalidArgument :: error + nat Semaphore) \<and>
   constructor 0 no_opts =
     Inr (\<lparr>priv_permits = 0, waiting = [], priv_maxPermits = 0, debug = False, name = []\<rparr>
          :: nat Semaphore) \<and>
   history 0 no_opts [Release, Acquire (1::nat), Release] =
     Inr \<lparr>priv_permits = 0, waiting = [], priv_maxPermits = 0, debug = False, name = []\<rparr> \<and>
   acquire (2::nat) \<lparr>priv_permits = 0, waiting = [], priv_maxPermits = 0,
                    debug = False, name = []\<rparr> =
     (Suspended, \<lparr>priv_permits = 0, waiting = [2], priv_maxPermits = 0,
                  debug = False, name = []\<rparr>)"
proof -
  have h: "history 0 no_opts [Release, Acquire (1::nat), Release] =
     Inr \<lparr>priv_permits = 0, waiting = [], priv_maxPermits = 0, debug = False, name = []\<rparr>"
    by (simp add: history_def constructor_def no_opts_def acquire_def release_def)
  have neg: "(- 1 :: rat) < 0" and nonneg: "(0 :: rat) \<le> 0" by simp_all
  from constructor_validates_capacity
         [where n = "- 1" and opts = no_opts and 'w = nat and cs = "[]" and r = 0]
       neg
  have a: "constructor (- 1) no_opts = (Inl InvalidArgument :: error + nat Semaphore)"
    by blast
  from constructor_validates_capacity
         [where n = 0 and opts = no_opts and 'w = nat
            and cs = "[Release, Acquire 1, Release]" and r = 2] h
  have b: "acquire (2::nat) \<lparr>priv_permits = 0, waiting = [], priv_maxPermits = 0,
                    debug = False, name = []\<rparr> =
     (Suspended, \<lparr>priv_permits = 0, waiting = [2], priv_maxPermits = 0,
                  debug = False, name = []\<rparr>)"
    by simp
  have c: "constructor 0 no_opts =
     Inr (\<lparr>priv_permits = 0, waiting = [], priv_maxPermits = 0, debug = False, name = []\<rparr>
          :: nat Semaphore)"
    by (simp add: constructor_def no_opts_def)
  from a b c h show ?thesis by simp
qed

text \<open>
  C9. \<^verbatim>\<open>maxPermits\<close> is the capacity given to the constructor in every state reached by
  any list of calls, and neither method changes it. The two queries are functions of the
  state and return no new state.
\<close>

theorem maxPermits_is_constant:
  "(history n opts cs = Inr s \<longrightarrow> maxPermits s = n) \<and>
   maxPermits (snd (acquire r t)) = maxPermits t \<and>
   maxPermits (snd (release t)) = maxPermits t"
proof -
  have "maxPermits s = n" if h: "history n opts cs = Inr s"
  proof -
    from history_Inr [OF h] obtain s0 where c: "constructor n opts = Inr s0" and s: "s = run cs s0"
      by blast
    from constructor_Inr [OF c] s show ?thesis by (simp add: maxPermits_def run_maxPermits)
  qed
  moreover have "maxPermits (snd (acquire r t)) = maxPermits t"
    using step_maxPermits [of "Acquire r" t] by (simp add: maxPermits_def)
  moreover have "maxPermits (snd (release t)) = maxPermits t"
    using step_maxPermits [of Release t] by (simp add: maxPermits_def)
  ultimately show ?thesis by simp
qed

theorem maxPermits_is_constant_witness:
  "history 2 no_opts [Acquire (1::nat), Acquire 2, Acquire 3, Release, Release] =
     Inr \<lparr>priv_permits = 1, waiting = [], priv_maxPermits = 2, debug = False, name = []\<rparr> \<and>
   maxPermits \<lparr>priv_permits = 1, waiting = [] :: nat list, priv_maxPermits = 2,
               debug = False, name = []\<rparr> = 2"
proof -
  have h: "history 2 no_opts [Acquire (1::nat), Acquire 2, Acquire 3, Release, Release] =
     Inr \<lparr>priv_permits = 1, waiting = [], priv_maxPermits = 2, debug = False, name = []\<rparr>"
    by (simp add: history_def constructor_def no_opts_def acquire_def release_def)
  from maxPermits_is_constant [of 2 no_opts "[Acquire (1::nat), Acquire 2, Acquire 3, Release, Release]"
         "\<lparr>priv_permits = 1, waiting = [], priv_maxPermits = 2, debug = False, name = []\<rparr>"
         "0::nat" "\<lparr>priv_permits = 1, waiting = [], priv_maxPermits = 2, debug = False, name = []\<rparr>"] h
  show ?thesis by simp
qed

text \<open>
  C10. The constructor throws exactly when its argument is negative. For every number
  \<open>c \<ge> 0\<close>, an integer or not, it makes an instance with \<open>permits = maxPermits = c\<close>: no
  check looks at whether \<open>c\<close> is an integer, so a capacity such as \<open>1.5\<close> is accepted.
\<close>

theorem constructor_accepts_fractional_capacity:
  "isl (constructor c opts :: error + 'w Semaphore) = (c < 0) \<and>
   (0 \<le> c \<longrightarrow> (\<exists>s :: 'w Semaphore. constructor c opts = Inr s \<and>
        permits s = c \<and> maxPermits s = c))"
  by (simp add: constructor_def permits_def maxPermits_def)

theorem constructor_accepts_fractional_capacity_witness:
  "(3/2 :: rat) \<notin> \<int> \<and> \<not> isl (constructor (3/2) no_opts :: error + nat Semaphore) \<and>
   (\<exists>s :: nat Semaphore. constructor (3/2) no_opts = Inr s \<and>
        permits s = 3/2 \<and> maxPermits s = 3/2)"
proof -
  have frac: "(3/2 :: rat) \<notin> \<int>"
  proof
    assume "(3/2 :: rat) \<in> \<int>"
    then obtain k :: int where k: "(3/2 :: rat) = of_int k" by (auto elim: Ints_cases)
    then have "(of_int 3 :: rat) = of_int (2 * k)" by simp
    then have "3 = 2 * k" by (simp only: of_int_eq_iff)
    then show False by presburger
  qed
  have "(0::rat) \<le> 3/2" by simp
  with constructor_accepts_fractional_capacity [where c = "3/2" and opts = no_opts and 'w = nat]
    frac
  show ?thesis by simp
qed

section \<open>The order of completion\<close>

lemma fifo_invariant: "woken cs s @ waiting (run cs s) = waiting s @ queued cs s"
proof (induction cs arbitrary: s)
  case Nil
  then show ?case by simp
next
  case (Cons c cs)
  show ?case
  proof (cases c)
    case (Acquire r)
    with Cons.IH [of "snd (acquire r s)"] show ?thesis
      by (simp add: acquire_def split: if_splits)
  next
    case Release
    show ?thesis
    proof (cases "waiting s = []")
      case True
      then have "waiting (snd (release s)) = []" and "fst (release s) = None"
        by (simp_all add: release_def)
      with Cons.IH [of "snd (release s)"] Release True show ?thesis by simp
    next
      case False
      then obtain r rest where w: "waiting s = r # rest" by (cases "waiting s") auto
      then have "waiting (snd (release s)) = rest" and "fst (release s) = Some r"
        by (simp_all add: release_def)
      with Cons.IH [of "snd (release s)"] Release w show ?thesis by simp
    qed
  qed
qed

lemma woken_append: "woken (cs @ ds) s = woken cs s @ woken ds (run cs s)"
proof (induction cs arbitrary: s)
  case Nil
  then show ?case by simp
next
  case (Cons c cs)
  then show ?case by (cases c) (simp_all split: option.splits)
qed

lemma woken_acquires: "woken (map Acquire rs) s = []"
  by (induction rs arbitrary: s) simp_all

lemma woken_releases: "woken (replicate k Release) s = take k (waiting s)"
proof (induction k arbitrary: s)
  case 0
  then show ?case by simp
next
  case (Suc k)
  show ?case
  proof (cases "waiting s = []")
    case True
    then have "waiting (snd (release s)) = []" and "fst (release s) = None"
      by (simp_all add: release_def)
    with Suc.IH [of "snd (release s)"] True show ?thesis by simp
  next
    case False
    then obtain r rest where w: "waiting s = r # rest" by (cases "waiting s") auto
    then have "waiting (snd (release s)) = rest" and "fst (release s) = Some r"
      by (simp_all add: release_def)
    with Suc.IH [of "snd (release s)"] w show ?thesis by simp
  qed
qed

lemma waiting_acquires:
  "priv_permits s = of_nat p \<Longrightarrow>
   waiting (run (map Acquire rs) s) = waiting s @ drop p rs"
proof (induction rs arbitrary: s p)
  case Nil
  then show ?case by simp
next
  case (Cons r rs)
  show ?case
  proof (cases p)
    case 0
    with Cons.prems have z: "priv_permits s = 0" by simp
    then have a: "snd (acquire r s) = s\<lparr>waiting := waiting s @ [r]\<rparr>"
      by (simp add: acquire_def)
    have "priv_permits (s\<lparr>waiting := waiting s @ [r]\<rparr>) = of_nat 0" using z by simp
    from Cons.IH [OF this] a 0 show ?thesis by simp
  next
    case (Suc q)
    with Cons.prems have "priv_permits s = of_nat q + 1" by simp
    moreover have "(0::rat) \<le> of_nat q" by simp
    ultimately have pos: "0 < priv_permits s" and eq: "priv_permits s - 1 = of_nat q"
      by linarith+
    from pos have a: "snd (acquire r s) = s\<lparr>priv_permits := priv_permits s - 1\<rparr>"
      by (simp add: acquire_def)
    have "priv_permits (s\<lparr>priv_permits := priv_permits s - 1\<rparr>) = of_nat q"
      using eq by simp
    from Cons.IH [OF this] a Suc show ?thesis by simp
  qed
qed

text \<open>
  C8. Queued acquires complete in the order in which they were called. For every list of
  calls from every state, the callbacks called so far, followed by those still queued,
  are the callbacks queued at the start followed by those of the acquires that had to
  wait, in call order; and a release calls the head of the queue, the oldest one still
  pending. In particular, when \<open>n\<close> acquires are called with \<open>p\<close> permits available and
  nobody queued, the first \<open>p\<close> are granted, and \<open>k\<close> releases then complete the first
  \<open>k\<close> of the others, in the order of their calls.
\<close>

theorem fifo_completion_order:
  "woken cs s @ waiting (run cs s) = waiting s @ queued cs s \<and>
   fst (release s) = (case waiting s of [] \<Rightarrow> None | r # rest \<Rightarrow> Some r) \<and>
   (permits s = of_nat p \<and> waiting s = [] \<longrightarrow>
      woken (map Acquire rs @ replicate k Release) s = take k (drop p rs))"
proof -
  have "woken (map Acquire rs @ replicate k Release) s = take k (drop p rs)"
    if "permits s = of_nat p" and "waiting s = []"
    using that waiting_acquires [of s p rs]
    by (simp add: woken_append woken_acquires woken_releases permits_def)
  moreover have "fst (release s) = (case waiting s of [] \<Rightarrow> None | r # rest \<Rightarrow> Some r)"
    by (simp add: release_def split: list.splits)
  ultimately show ?thesis using fifo_invariant [of cs s] by simp
qed

theorem fifo_completion_order_witness:
  "permits \<lparr>priv_permits = 2, waiting = [] :: nat list, priv_maxPermits = 2,
            debug = False, name = []\<rparr> = of_nat 2 \<and>
   woken (map Acquire [10, 11, 1, 2, 3 :: nat] @ replicate 3 Release)
         \<lparr>priv_permits = 2, waiting = [], priv_maxPermits = 2, debug = False, name = []\<rparr> =
     [1, 2, 3]"
  using fifo_completion_order [of "[]"
          "\<lparr>priv_permits = 2, waiting = [] :: nat list, priv_maxPermits = 2,
            debug = False, name = []\<rparr>" 2 "[10, 11, 1, 2, 3]" 3]
  by (simp add: permits_def)

section \<open>The arithmetic of the machine\<close>

subsection \<open>Which rationals are doubles\<close>

lemma pow2_pos: "0 < (2::rat) powi e"
  by (simp add: zero_less_power_int)

lemma pow2_less_imp: "(2::rat) powi a < 2 powi b \<Longrightarrow> a < b"
proof (rule ccontr)
  assume lt: "(2::rat) powi a < 2 powi b" and "\<not> a < b"
  then have "b \<le> a" by simp
  then have "(2::rat) powi b \<le> 2 powi a" by (rule power_int_increasing) simp
  with lt show False by simp
qed

lemma exponent_bounds:
  assumes "x \<noteq> 0"
  shows "2 powi exponent x \<le> \<bar>x\<bar> \<and> \<bar>x\<bar> < 2 powi (exponent x + 1)"
proof (cases "1 \<le> \<bar>x\<bar>")
  case True
  define n where "n = \<lfloor>\<bar>x\<bar>\<rfloor>"
  have n1: "1 \<le> n" using True by (simp add: n_def le_floor_iff)
  then have npos: "0 < n" by simp
  from bitlen_bounds [OF npos]
  have lo: "2 ^ nat (bitlen n - 1) \<le> n" and hi: "n < 2 ^ nat (bitlen n)" by simp_all
  have b1: "1 \<le> bitlen n" using npos bitlen_eq_zero_iff [of n] bitlen_nonneg [of n] by linarith
  have e: "exponent x = bitlen n - 1" using True by (simp add: exponent_def n_def)
  have "(of_int (2 ^ nat (bitlen n - 1)) :: rat) \<le> of_int n" using lo by (simp only: of_int_le_iff)
  also have "(of_int n :: rat) \<le> \<bar>x\<bar>" by (simp add: n_def)
  finally have A: "(2::rat) ^ nat (bitlen n - 1) \<le> \<bar>x\<bar>" by simp
  from hi have "n + 1 \<le> 2 ^ nat (bitlen n)" by simp
  then have "(of_int (n + 1) :: rat) \<le> of_int (2 ^ nat (bitlen n))" by (simp only: of_int_le_iff)
  moreover have "\<bar>x\<bar> < of_int (n + 1)" unfolding n_def by linarith
  ultimately have B: "\<bar>x\<bar> < (2::rat) ^ nat (bitlen n)" by simp
  from A B b1 e show ?thesis by (simp add: power_int_def)
next
  case False
  with assms have pos: "0 < \<bar>x\<bar>" and lt: "\<bar>x\<bar> < 1" by simp_all
  define y where "y = 1 / \<bar>x\<bar>"
  have y1: "1 < y" using pos lt by (simp add: y_def)
  have ypos: "0 < y" using y1 by simp
  have xy: "\<bar>x\<bar> = 1 / y" by (simp add: y_def)
  define m where "m = \<lceil>y\<rceil> - 1"
  have my: "of_int m < y" unfolding m_def by linarith
  have ym: "y \<le> of_int (m + 1)" unfolding m_def by (simp add: le_of_int_ceiling)
  have "1 < \<lceil>y\<rceil>" using y1 by (simp add: less_ceiling_iff)
  then have mpos: "0 < m" by (simp add: m_def)
  from bitlen_bounds [OF mpos]
  have lo: "2 ^ nat (bitlen m - 1) \<le> m" and hi: "m < 2 ^ nat (bitlen m)" by simp_all
  have b1: "1 \<le> bitlen m" using mpos bitlen_eq_zero_iff [of m] bitlen_nonneg [of m] by linarith
  have e: "exponent x = - bitlen m" using False by (simp add: exponent_def m_def y_def)
  from hi have "m + 1 \<le> 2 ^ nat (bitlen m)" by simp
  then have "(of_int (m + 1) :: rat) \<le> of_int (2 ^ nat (bitlen m))" by (simp only: of_int_le_iff)
  with ym have yhi: "y \<le> 2 ^ nat (bitlen m)" by simp
  have "(of_int (2 ^ nat (bitlen m - 1)) :: rat) \<le> of_int m" using lo by (simp only: of_int_le_iff)
  then have "(2::rat) ^ nat (bitlen m - 1) \<le> of_int m" by simp
  with my have ylo: "2 ^ nat (bitlen m - 1) < y" by linarith
  have A: "1 / 2 ^ nat (bitlen m) \<le> 1 / y"
    using yhi ypos by (simp add: frac_le)
  have B: "1 / y < 1 / 2 ^ nat (bitlen m - 1)"
    using ylo by (simp add: frac_less2)
  have p1: "(2::rat) powi (- bitlen m) = 1 / 2 ^ nat (bitlen m)"
    using b1 by (simp add: power_int_def inverse_eq_divide power_one_over)
  have p2: "(2::rat) powi (- bitlen m + 1) = 1 / 2 ^ nat (bitlen m - 1)"
  proof -
    have "- bitlen m + 1 = - (bitlen m - 1)" by simp
    then have "(2::rat) powi (- bitlen m + 1) = 2 powi (- (bitlen m - 1))" by (rule arg_cong)
    also have "\<dots> = 1 / 2 powi (bitlen m - 1)" by (rule power_int_minus_divide)
    also have "(2::rat) powi (bitlen m - 1) = 2 ^ nat (bitlen m - 1)"
      using b1 by (intro power_int_nonneg_exp) simp
    finally show ?thesis .
  qed
  from A B show ?thesis unfolding e xy p1 p2 by simp
qed

lemma exponent_unique:
  assumes "2 powi e \<le> \<bar>x\<bar>" and "\<bar>x\<bar> < 2 powi (e + 1)"
  shows "exponent x = e"
proof -
  have "0 < \<bar>x\<bar>" using assms(1) pow2_pos [of e] by linarith
  then have "x \<noteq> 0" by simp
  from exponent_bounds [OF this]
  have a: "2 powi exponent x \<le> \<bar>x\<bar>" and b: "\<bar>x\<bar> < 2 powi (exponent x + 1)" by simp_all
  have "(2::rat) powi e < 2 powi (exponent x + 1)" using assms(1) b by simp
  then have "e < exponent x + 1" by (rule pow2_less_imp)
  moreover have "(2::rat) powi exponent x < 2 powi (e + 1)" using a assms(2) by simp
  then have "exponent x < e + 1" by (rule pow2_less_imp)
  ultimately show ?thesis by simp
qed

lemma exponent_mono:
  assumes "0 < \<bar>y\<bar>" and "\<bar>y\<bar> \<le> \<bar>x\<bar>"
  shows "exponent y \<le> exponent x"
proof -
  have y: "y \<noteq> 0" and x: "x \<noteq> 0" using assms by auto
  have "(2::rat) powi exponent y \<le> \<bar>y\<bar>" using exponent_bounds [OF y] by simp
  also have "\<dots> \<le> \<bar>x\<bar>" by fact
  also have "\<dots> < 2 powi (exponent x + 1)" using exponent_bounds [OF x] by simp
  finally have "exponent y < exponent x + 1" by (rule pow2_less_imp)
  then show ?thesis by simp
qed



lemma ulp_pos: "0 < ulp x"
  by (simp add: ulp_def pow2_pos)

lemma round_even_of_int: "round_even (of_int k) = k"
  by (simp add: round_even_def)

lemma round_double_exact_iff: "round_double x = x \<longleftrightarrow> x / ulp x \<in> \<int>"
proof
  assume r: "round_double x = x"
  show "x / ulp x \<in> \<int>"
  proof (cases "x = 0")
    case True
    then show ?thesis by simp
  next
    case False
    with r have "of_int (round_even (x / ulp x)) * ulp x = x" by (simp add: round_double_def)
    then have "x / ulp x = of_int (round_even (x / ulp x))"
      using ulp_pos [of x] by (simp add: field_simps)
    then show ?thesis by (metis Ints_of_int)
  qed
next
  assume "x / ulp x \<in> \<int>"
  then obtain k :: int where k: "x / ulp x = of_int k" by (auto elim: Ints_cases)
  then have "of_int (round_even (x / ulp x)) * ulp x = of_int k * ulp x"
    by (simp add: round_even_of_int)
  also have "\<dots> = x" using k ulp_pos [of x] by (simp add: field_simps)
  finally show "round_double x = x" by (simp add: round_double_def)
qed

lemma pow2_Ints: "0 \<le> n \<Longrightarrow> (2::rat) powi n \<in> \<int>"
  by (simp add: power_int_nonneg_exp)

lemma pow2_quotient: "(2::rat) powi b / 2 powi a = 2 powi (b - a)"
  by (simp add: power_int_diff)

lemma pow2_inverse: "1 / (2::rat) powi a = 2 powi (- a)"
  by (simp add: power_int_minus_divide)

lemma exponent_less: 
  assumes "x \<noteq> 0" and "\<bar>x\<bar> < 2 ^ n"
  shows "exponent x < int n"
proof -
  have "(2::rat) powi exponent x \<le> \<bar>x\<bar>" using exponent_bounds [OF assms(1)] by simp
  also have "\<bar>x\<bar> < 2 powi (int n)" using assms(2) by simp
  finally show ?thesis by (rule pow2_less_imp)
qed

lemma minus_one_exact:
  assumes "x / ulp x \<in> \<int>" and "1 \<le> x" and "x \<le> 2 ^ 53"
  shows "(x - 1) / ulp (x - 1) \<in> \<int>"
proof (cases "x - 1 = 0")
  case True
  then show ?thesis by simp
next
  case False
  define y where "y = x - 1"
  have y0: "y \<noteq> 0" using False by (simp add: y_def)
  have ypos: "0 < \<bar>y\<bar>" using y0 by simp
  have yx: "\<bar>y\<bar> \<le> \<bar>x\<bar>" using assms(2) by (simp add: y_def)
  have ylt: "\<bar>y\<bar> < 2 ^ 53" using assms(2,3) by (simp add: y_def)
  define a where "a = max (exponent y) (- 1022) - 52"
  define b where "b = max (exponent x) (- 1022) - 52"
  have "exponent y \<le> exponent x" using ypos yx by (rule exponent_mono)
  then have ab: "a \<le> b" by (simp add: a_def b_def)
  have "exponent y < int 53" using y0 ylt by (rule exponent_less)
  then have a0: "a \<le> 0" by (simp add: a_def)
  have uy: "ulp y = 2 powi a" and ux: "ulp x = 2 powi b" by (simp_all add: ulp_def a_def b_def)
  have r: "ulp x / ulp y \<in> \<int>" unfolding uy ux pow2_quotient using ab by (intro pow2_Ints) simp
  have i: "1 / ulp y \<in> \<int>" unfolding uy pow2_inverse using a0 by (intro pow2_Ints) simp
  have "y / ulp y = (x / ulp x) * (ulp x / ulp y) - 1 / ulp y"
    using ulp_pos [of x] ulp_pos [of y] by (simp add: y_def field_simps)
  also have "\<dots> \<in> \<int>" using assms(1) r i by (intro Ints_diff Ints_mult)
  finally show ?thesis by (simp add: y_def)
qed

lemma of_int_exact:
  assumes "\<bar>n\<bar> \<le> 2 ^ 53"
  shows "of_int n / ulp (of_int n) \<in> \<int>"
proof (cases "\<bar>n\<bar> = 2 ^ 53")
  case True
  then have ax: "\<bar>of_int n :: rat\<bar> = 2 ^ 53"
    by (metis of_int_abs of_int_numeral of_int_power)
  have "exponent (of_int n) = 53"
  proof (rule exponent_unique)
    show "(2::rat) powi 53 \<le> \<bar>of_int n\<bar>" using ax by simp
    show "\<bar>of_int n :: rat\<bar> < 2 powi (53 + 1)" using ax by simp
  qed
  then have u: "ulp (of_int n) = 2" by (simp add: ulp_def)
  from True have "even n" by (metis even_abs_add_iff even_add even_numeral even_power zero_less_numeral)
  then obtain k where "n = 2 * k" by (auto elim: evenE)
  then have "(of_int n :: rat) / 2 = of_int k" by simp
  then show ?thesis unfolding u by (metis Ints_of_int)
next
  case False
  show ?thesis
  proof (cases "n = 0")
    case True
    then show ?thesis by simp
  next
    case n0: False
    from False assms have "\<bar>n\<bar> < 2 ^ 53" by simp
    then have "(of_int \<bar>n\<bar> :: rat) < of_int (2 ^ 53)" by (simp only: of_int_less_iff)
    then have lt: "\<bar>of_int n :: rat\<bar> < 2 ^ 53" by simp
    have x0: "(of_int n :: rat) \<noteq> 0" using n0 by simp
    have "exponent (of_int n) < int 53" using x0 lt by (rule exponent_less)
    then have a0: "max (exponent (of_int n)) (- 1022) - 52 \<le> 0" by simp
    have i: "1 / ulp (of_int n) \<in> \<int>"
      unfolding ulp_def pow2_inverse using a0 by (intro pow2_Ints) simp
    have "(of_int n :: rat) / ulp (of_int n) = of_int n * (1 / ulp (of_int n))" by simp
    also have "\<dots> \<in> \<int>" using i by (intro Ints_mult) simp_all
    finally show ?thesis .
  qed
qed

lemma is_double_minus_one:
  assumes "is_double x" and "1 \<le> x" and "x \<le> 2 ^ 53"
  shows "is_double (x - 1)"
proof -
  from assms(1) have e: "x / ulp x \<in> \<int>" and b: "\<bar>x\<bar> < 2 ^ 1024"
    by (simp_all add: is_double_def round_double_exact_iff)
  from minus_one_exact [OF e assms(2,3)] have "round_double (x - 1) = x - 1"
    by (simp add: round_double_exact_iff)
  moreover have "\<bar>x - 1\<bar> < 2 ^ 1024" using b assms(2) by simp
  ultimately show ?thesis by (simp add: is_double_def)
qed

lemma is_double_of_int:
  assumes "\<bar>n\<bar> \<le> 2 ^ 53"
  shows "is_double (of_int n)"
proof -
  have "round_double (of_int n) = of_int n"
    using of_int_exact [OF assms] by (simp add: round_double_exact_iff)
  moreover have "(of_int \<bar>n\<bar> :: rat) \<le> of_int (2 ^ 53)" using assms by (simp only: of_int_le_iff)
  then have "\<bar>of_int n :: rat\<bar> \<le> 2 ^ 53" by simp
  moreover have "(2::rat) ^ 53 < 2 ^ 1024" by (rule power_strict_increasing) simp_all
  ultimately show ?thesis by (simp add: is_double_def)
qed

text \<open>Above \<open>2^53\<close> the doubles are at least two apart. Where they are four apart, or
  at a multiple of four, subtracting one rounds back to the number itself.\<close>

lemma round_even_up:
  assumes "\<lfloor>q\<rfloor> = f" and "1/2 < q - of_int f \<or> q - of_int f = 1/2 \<and> odd f"
  shows "round_even q = f + 1"
  using assms by (auto simp: round_even_def Let_def)

lemma minus_one_absorbed:
  assumes d: "is_double N" and big: "2 ^ 53 < N" and four: "N / 4 \<in> \<int>"
  shows "round_double (N - 1) = N"
proof -
  from four obtain j :: int where j: "N / 4 = of_int j" by (auto elim: Ints_cases)
  then have N4: "N = of_int (4 * j)" by simp
  have "(of_int (2 ^ 53) :: rat) < of_int (4 * j)" using big N4 by simp
  then have "2 ^ 53 < 4 * j" by (simp only: of_int_less_iff)
  moreover have p: "(2::int) ^ 53 = 4 * 2 ^ 51" by simp
  ultimately have "(2::int) ^ 51 < j" by linarith
  then have "(2::int) ^ 51 + 1 \<le> j" by simp
  with p have "2 ^ 53 + 4 \<le> 4 * j" by linarith
  then have "(of_int (2 ^ 53 + 4) :: rat) \<le> of_int (4 * j)" by (simp only: of_int_le_iff)
  then have N1: "2 ^ 53 \<le> N - 1" using N4 by simp
  define y where "y = N - 1"
  have ypos: "0 < y" and y53: "2 ^ 53 \<le> y" and yN: "y \<le> N" and y0: "y \<noteq> 0"
    using N1 by (simp_all add: y_def)
  have Npos: "0 < N" using big by (meson less_trans zero_less_numeral zero_less_power)
  define e' where "e' = exponent y"
  have "(2::rat) powi 53 \<le> \<bar>y\<bar>" using y53 ypos by simp
  also have "\<bar>y\<bar> < 2 powi (e' + 1)" using exponent_bounds [OF y0] by (simp add: e'_def)
  finally have "53 < e' + 1" by (rule pow2_less_imp)
  then have e53: "53 \<le> e'" by simp
  have "0 < \<bar>y\<bar>" using ypos by simp
  moreover have "\<bar>y\<bar> \<le> \<bar>N\<bar>" using ypos yN by simp
  ultimately have ee: "e' \<le> exponent N" unfolding e'_def by (rule exponent_mono)
  define u' where "u' = (2::rat) powi (e' - 52)"
  have uy: "ulp y = u'" using e53 by (simp add: ulp_def e'_def [symmetric] u'_def max_def)
  have uN: "ulp N = 2 powi (exponent N - 52)" using e53 ee by (simp add: ulp_def max_def)
  have upos: "0 < u'" by (simp add: u'_def pow2_pos)
  have "ulp N / u' \<in> \<int>" unfolding uN u'_def pow2_quotient using ee by (intro pow2_Ints) simp
  moreover from d have "N / ulp N \<in> \<int>" by (simp add: is_double_def round_double_exact_iff)
  ultimately have "(N / ulp N) * (ulp N / u') \<in> \<int>" by (intro Ints_mult)
  moreover have "ulp N \<noteq> 0" using ulp_pos [of N] by simp
  then have "(N / ulp N) * (ulp N / u') = N / u'" by simp
  ultimately have "N / u' \<in> \<int>" by (simp only:)
  then obtain M :: int where M: "N / u' = of_int M" by (auto elim: Ints_cases)
  have inv: "1 / u' = 2 powi (52 - e')" unfolding u'_def pow2_inverse by simp
  have q: "y / u' = of_int M - 1 / u'" using M upos by (simp add: y_def field_simps)
  have ipos: "0 < 1 / u'" using upos by simp
  have "(2::rat) powi (52 - e') \<le> 2 powi (- 1)" using e53 by (intro power_int_increasing) simp_all
  then have ihalf: "1 / u' \<le> 1 / 2" unfolding inv by (simp add: power_int_minus_divide)
  have fl: "\<lfloor>y / u'\<rfloor> = M - 1"
  proof (rule floor_unique)
    show "of_int (M - 1) \<le> y / u'" unfolding q using ihalf by simp
    show "y / u' < of_int (M - 1) + 1" unfolding q using ipos by simp
  qed
  have dd: "y / u' - of_int (M - 1) = 1 - 1 / u'" unfolding q by simp
  have "round_even (y / u') = M"
  proof (cases "e' = 53")
    case True
    then have u2: "u' = 2" by (simp add: u'_def)
    then have "of_int M = N / 2" using M by simp
    also have "\<dots> = of_int (2 * j)" using N4 by simp
    finally have "M = 2 * j" by (simp only: of_int_eq_iff)
    then have "odd (M - 1)" by simp
    moreover have "y / u' - of_int (M - 1) = 1 / 2" unfolding dd using u2 by simp
    ultimately have "round_even (y / u') = M - 1 + 1" by (intro round_even_up fl) simp
    then show ?thesis by simp
  next
    case False
    with e53 have "54 \<le> e'" by simp
    then have "(2::rat) powi (52 - e') \<le> 2 powi (- 2)" by (intro power_int_increasing) simp_all
    then have "1 / u' \<le> 1 / 4" unfolding inv by (simp add: power_int_minus_divide)
    then have "1 / 2 < y / u' - of_int (M - 1)" unfolding dd by simp
    then have "round_even (y / u') = M - 1 + 1" by (intro round_even_up fl) simp
    then show ?thesis by simp
  qed
  then have "round_double y = of_int M * u'" using y0 by (simp add: round_double_def uy)
  also have "\<dots> = N" using M upos by (simp add: field_simps)
  finally show ?thesis by (simp add: y_def)
qed

lemma double_multiple_of_four:
  assumes d: "is_double N" and big: "2 ^ 54 \<le> N"
  shows "N / 4 \<in> \<int>"
proof -
  have Npos: "0 < N" using big by (meson less_le_trans zero_less_numeral zero_less_power)
  then have N0: "N \<noteq> 0" by simp
  have "(2::rat) powi 54 \<le> \<bar>N\<bar>" using big Npos by simp
  also have "\<bar>N\<bar> < 2 powi (exponent N + 1)" using exponent_bounds [OF N0] by simp
  finally have "54 < exponent N + 1" by (rule pow2_less_imp)
  then have e: "54 \<le> exponent N" by simp
  then have uN: "ulp N = 2 powi (exponent N - 52)" by (simp add: ulp_def max_def)
  have "(2::rat) powi (exponent N - 52) / 2 powi 2 \<in> \<int>"
    unfolding pow2_quotient using e by (intro pow2_Ints) simp
  then have "ulp N / 4 \<in> \<int>" unfolding uN by simp
  moreover from d have "N / ulp N \<in> \<int>" by (simp add: is_double_def round_double_exact_iff)
  ultimately have "(N / ulp N) * (ulp N / 4) \<in> \<int>" by (intro Ints_mult)
  moreover have "ulp N \<noteq> 0" using ulp_pos [of N] by simp
  then have "(N / ulp N) * (ulp N / 4) = N / 4" by simp
  ultimately show ?thesis by (simp only:)
qed

text \<open>Two ties, and two doubles above \<open>2^53\<close>: \<open>2^53 + 1\<close> lies halfway between
  \<open>2^53\<close> and \<open>2^53 + 2\<close>, and \<open>2^54 - 1\<close> halfway between \<open>2^54 - 2\<close> and \<open>2^54\<close>.\<close>

lemma round_double_2p53_plus_1: "round_double 9007199254740993 = 9007199254740992"
  by code_simp

lemma round_double_2p54_minus_1: "round_double 18014398509481983 = 18014398509481984"
  by code_simp

lemma is_double_2p53_plus_2: "is_double 9007199254740994"
  by code_simp

lemma is_double_2p54: "is_double 18014398509481984"
  by code_simp

subsection \<open>Where the two versions of the methods agree\<close>

lemma decrement_exact:
  assumes "is_double x" and "1 \<le> x" and "x \<le> 2 ^ 53"
  shows "decrement x = x - 1"
  using is_double_minus_one [OF assms] by (simp add: decrement_def is_double_def)

lemma increment_exact: "is_double (x + 1) \<Longrightarrow> increment x = x + 1"
  by (simp add: increment_def is_double_def)

lemma acquire64_exact:
  assumes "priv_permits s \<le> 0 \<or> is_double (priv_permits s) \<and> 1 \<le> priv_permits s \<and> priv_permits s \<le> 2 ^ 53"
  shows "acquire64 r s = acquire r s"
  using assms by (auto simp: acquire64_def acquire_def decrement_exact)

lemma release64_exact:
  assumes "waiting s \<noteq> [] \<or> \<not> priv_permits s < priv_maxPermits s \<or> is_double (priv_permits s + 1)"
  shows "release64 s = release s"
  using assms by (auto simp: release64_def release_def increment_exact split: list.splits)

subsection \<open>Acquire and conservation in machine arithmetic\<close>

lemma run64_append: "run64 (cs @ ds) s = run64 ds (run64 cs s)"
  by (induction cs arbitrary: s) simp_all

lemma is_double_minus_nat:
  "is_double p \<Longrightarrow> of_nat k \<le> p \<Longrightarrow> p \<le> 2 ^ 53 \<Longrightarrow> is_double (p - of_nat k)"
proof (induction k)
  case 0
  then show ?case by simp
next
  case (Suc k)
  from Suc.prems(2) have k: "of_nat k \<le> p" and one: "1 \<le> p - of_nat k" by simp_all
  have d: "is_double (p - of_nat k)" using Suc.IH [OF Suc.prems(1) k Suc.prems(3)] .
  have "(0::rat) \<le> of_nat k" by simp
  with Suc.prems(3) have le: "p - of_nat k \<le> 2 ^ 53" by linarith
  from is_double_minus_one [OF d one le] show ?case by (simp add: algebra_simps)
qed

lemma run64_acquires_granted:
  "is_double (priv_permits s) \<Longrightarrow> of_nat (length rs) \<le> priv_permits s \<Longrightarrow>
   priv_permits s \<le> 2 ^ 53 \<Longrightarrow>
   run64 (map Acquire rs) s = s\<lparr>priv_permits := priv_permits s - of_nat (length rs)\<rparr>"
proof (induction rs arbitrary: s)
  case Nil
  then show ?case by simp
next
  case (Cons r rs)
  from Cons.prems(2) have le: "of_nat (length rs) + 1 \<le> priv_permits s"
    by (simp add: add.commute)
  have n0: "(0::rat) \<le> of_nat (length rs)" by simp
  with le have one: "1 \<le> priv_permits s" by linarith
  then have pos: "0 < priv_permits s" by simp
  have dec: "decrement (priv_permits s) = priv_permits s - 1"
    using Cons.prems(1) one Cons.prems(3) by (rule decrement_exact)
  have a: "acquire64 r s = (Granted, s\<lparr>priv_permits := priv_permits s - 1\<rparr>)"
    using pos dec by (simp add: acquire64_def)
  have d: "is_double (priv_permits (s\<lparr>priv_permits := priv_permits s - 1\<rparr>))"
    using is_double_minus_one [OF Cons.prems(1) one Cons.prems(3)] by simp
  have l: "of_nat (length rs) \<le> priv_permits (s\<lparr>priv_permits := priv_permits s - 1\<rparr>)"
    using le by simp
  have b: "priv_permits (s\<lparr>priv_permits := priv_permits s - 1\<rparr>) \<le> 2 ^ 53"
    using Cons.prems(3) by simp
  from Cons.IH [OF d l b] a show ?case by (simp add: algebra_simps)
qed

lemma run64_releases_increment:
  "waiting s = [] \<Longrightarrow> 0 \<le> priv_permits s \<Longrightarrow>
   is_double (priv_permits s + of_nat k) \<Longrightarrow> priv_permits s + of_nat k \<le> 2 ^ 53 \<Longrightarrow>
   priv_permits s + of_nat k \<le> priv_maxPermits s \<Longrightarrow>
   run64 (replicate k Release) s = s\<lparr>priv_permits := priv_permits s + of_nat k\<rparr>"
proof (induction k arbitrary: s)
  case 0
  then show ?case by simp
next
  case (Suc k)
  let ?p = "priv_permits s"
  let ?top = "?p + of_nat (Suc k)"
  have k0: "(0::rat) \<le> of_nat k" by simp
  have top: "?top = ?p + 1 + of_nat k" by simp
  have "?p + 1 + of_nat k \<le> priv_maxPermits s" using Suc.prems(5) by (simp add: algebra_simps)
  with k0 have lt: "?p < priv_maxPermits s" by linarith
  have "0 \<le> ?p + 1" using Suc.prems(2) by simp
  then have kt: "of_nat k \<le> ?top" by (simp add: algebra_simps)
  have "is_double (?top - of_nat k)"
    using Suc.prems(3) kt Suc.prems(4) by (rule is_double_minus_nat)
  then have "is_double (?p + 1)" by simp
  then have inc: "increment ?p = ?p + 1" by (rule increment_exact)
  have r: "release64 s = (None, s\<lparr>priv_permits := ?p + 1\<rparr>)"
    using Suc.prems(1) lt inc by (simp add: release64_def)
  let ?s' = "s\<lparr>priv_permits := ?p + 1\<rparr>"
  have w: "waiting ?s' = []" using Suc.prems(1) by simp
  have z: "0 \<le> priv_permits ?s'" using Suc.prems(2) by simp
  have "priv_permits ?s' + of_nat k = ?top" by simp
  with Suc.prems(3) have d: "is_double (priv_permits ?s' + of_nat k)" by (simp only:)
  have b: "priv_permits ?s' + of_nat k \<le> 2 ^ 53" using Suc.prems(4) by (simp add: algebra_simps)
  have m: "priv_permits ?s' + of_nat k \<le> priv_maxPermits ?s'"
    using Suc.prems(5) by (simp add: algebra_simps)
  from Suc.IH [OF w z d b m] r show ?case by (simp add: algebra_simps)
qed

text \<open>
  C4. An acquire is a step with two branches. With \<open>permits > 0\<close> it returns at once,
  leaves the queue untouched and lowers the counter by one in double arithmetic: the new
  counter is the double nearest to \<open>permits - 1\<close>, and it is exactly \<open>permits - 1\<close> for
  every counter from \<open>1\<close> to \<open>2^53\<close>. With \<open>permits = 0\<close> it appends its own callback, and
  nothing else, at the tail of the queue, suspends its caller and leaves the counter
  alone. In both branches every callback that was queued stays queued: only a release
  takes a callback out and calls it.
\<close>

theorem acquire64_two_branches:
  "(0 < permits s \<longrightarrow>
      acquire64 r s = (Granted, s\<lparr>priv_permits := round_double (priv_permits s - 1)\<rparr>)) \<and>
   (is_double (permits s) \<and> 1 \<le> permits s \<and> permits s \<le> 2 ^ 53 \<longrightarrow>
      acquire64 r s = (Granted, s\<lparr>priv_permits := priv_permits s - 1\<rparr>)) \<and>
   (permits s = 0 \<longrightarrow> acquire64 r s = (Suspended, s\<lparr>waiting := waiting s @ [r]\<rparr>)) \<and>
   (x \<in> set (waiting s) \<longrightarrow> x \<in> set (waiting (snd (acquire64 r s))))"
proof -
  have "acquire64 r s = (Granted, s\<lparr>priv_permits := priv_permits s - 1\<rparr>)"
    if "is_double (permits s)" and "1 \<le> permits s" and "permits s \<le> 2 ^ 53"
    using that decrement_exact [of "priv_permits s"] by (simp add: acquire64_def permits_def)
  then show ?thesis by (simp add: acquire64_def permits_def decrement_def)
qed

theorem acquire64_two_branches_witness:
  "is_double (permits \<lparr>priv_permits = 2, waiting = [] :: nat list, priv_maxPermits = 2,
                       debug = False, name = []\<rparr>) \<and>
   acquire64 (5::nat) \<lparr>priv_permits = 2, waiting = [], priv_maxPermits = 2,
                      debug = False, name = []\<rparr> =
     (Granted, \<lparr>priv_permits = 1, waiting = [], priv_maxPermits = 2,
                debug = False, name = []\<rparr>) \<and>
   acquire64 (5::nat) \<lparr>priv_permits = 0, waiting = [4], priv_maxPermits = 2,
                      debug = False, name = []\<rparr> =
     (Suspended, \<lparr>priv_permits = 0, waiting = [4, 5], priv_maxPermits = 2,
                  debug = False, name = []\<rparr>) \<and>
   (4::nat) \<in> set (waiting (snd (acquire64 5 \<lparr>priv_permits = 0, waiting = [4],
                       priv_maxPermits = 2, debug = False, name = []\<rparr>)))"
proof -
  have d: "is_double (2::rat)" using is_double_of_int [of 2] by simp
  have e: "round_double 1 = 1" using is_double_of_int [of 1] by (simp add: is_double_def)
  have b: "(2::rat) \<le> 2 ^ 53" by simp
  from d e b
    acquire64_two_branches [of "\<lparr>priv_permits = 2, waiting = [], priv_maxPermits = 2,
                               debug = False, name = []\<rparr>" "5::nat" 4]
    acquire64_two_branches [of "\<lparr>priv_permits = 0, waiting = [4], priv_maxPermits = 2,
                               debug = False, name = []\<rparr>" "5::nat" 4]
  show ?thesis by (simp add: permits_def)
qed

text \<open>
  The decrement of C4 is not by one in every state with \<open>permits > 0\<close>: the constructor
  accepts \<open>2^54\<close>, and there \<^verbatim>\<open>this._permits--\<close> computes \<open>2^54 - 1\<close>, which rounds
  back to \<open>2^54\<close>. The acquire is granted and the counter is what it was.
\<close>

theorem acquire64_inexact_counterexample:
  "constructor 18014398509481984 no_opts =
     Inr (\<lparr>priv_permits = 18014398509481984, waiting = [], priv_maxPermits = 18014398509481984,
           debug = False, name = []\<rparr> :: nat Semaphore) \<and>
   is_double 18014398509481984 \<and>
   0 < permits \<lparr>priv_permits = 18014398509481984, waiting = [] :: nat list,
                priv_maxPermits = 18014398509481984, debug = False, name = []\<rparr> \<and>
   acquire64 (1::nat) \<lparr>priv_permits = 18014398509481984, waiting = [],
                       priv_maxPermits = 18014398509481984, debug = False, name = []\<rparr> =
     (Granted, \<lparr>priv_permits = 18014398509481984, waiting = [],
                priv_maxPermits = 18014398509481984, debug = False, name = []\<rparr>) \<and>
   (18014398509481984 :: rat) \<noteq> 18014398509481984 - 1"
  using round_double_2p54_minus_1 is_double_2p54
  by (simp add: constructor_def no_opts_def permits_def acquire64_def decrement_def)

lemma run64_acquires_absorbed:
  "0 < priv_permits s \<Longrightarrow> decrement (priv_permits s) = priv_permits s \<Longrightarrow>
   run64 (map Acquire rs) s = s"
proof (induction rs)
  case Nil
  then show ?case by simp
next
  case (Cons r rs)
  from Cons.prems have "acquire64 r s = (Granted, s)" by (simp add: acquire64_def)
  with Cons.IH [OF Cons.prems] show ?case by simp
qed

lemma run64_releases_saturated:
  "waiting s = [] \<Longrightarrow> \<not> priv_permits s < priv_maxPermits s \<Longrightarrow>
   run64 (replicate k Release) s = s"
proof (induction k)
  case 0
  then show ?case by simp
next
  case (Suc k)
  from Suc.prems have "release64 s = (None, s)" by (simp add: release64_def)
  with Suc.IH [OF Suc.prems] show ?case by simp
qed

text \<open>
  C7. From the state made by the constructor with a capacity \<open>N \<ge> 0\<close>, \<open>k \<le> N\<close> acquires
  followed by \<open>k\<close> releases give back \<open>permits = N\<close> and an empty queue (indeed the very
  state the constructor made), and nobody is queued before the first release, for every
  double \<open>N\<close> other than those strictly between \<open>2^53\<close> and \<open>2^54\<close> that are not multiples
  of four. Up to \<open>2^53\<close> every acquire lowers the counter by exactly one, which leaves
  \<open>permits = N - k\<close> before the first release; for the larger \<open>N\<close> admitted here an acquire
  is granted and leaves the counter at \<open>N\<close>.
\<close>

theorem acquire64_release64_conservation:
  assumes "constructor N opts = Inr s0" and "is_double N" and "of_nat k \<le> N"
    and "length rs = k" and "N \<le> 2 ^ 53 \<or> 2 ^ 54 \<le> N \<or> N / 4 \<in> \<int>"
  shows "permits (run64 (map Acquire rs @ replicate k Release) s0) = N \<and>
         waiting (run64 (map Acquire rs @ replicate k Release) s0) = [] \<and>
         run64 (map Acquire rs @ replicate k Release) s0 = s0 \<and>
         waiting (run64 (map Acquire rs) s0) = [] \<and>
         (N \<le> 2 ^ 53 \<longrightarrow> permits (run64 (map Acquire rs) s0) = N - of_nat k)"
proof -
  from constructor_Inr [OF assms(1)]
  have p: "priv_permits s0 = N" and m: "priv_maxPermits s0 = N" and w0: "waiting s0 = []"
    by simp_all
  show ?thesis
  proof (cases "N \<le> 2 ^ 53")
    case True
    have d: "is_double (priv_permits s0)" using assms(2) p by simp
    have le: "of_nat (length rs) \<le> priv_permits s0" using assms(3,4) p by simp
    have b: "priv_permits s0 \<le> 2 ^ 53" using True p by simp
    from run64_acquires_granted [OF d le b]
    have a: "run64 (map Acquire rs) s0 = s0\<lparr>priv_permits := N - of_nat k\<rparr>"
      using assms(4) p by simp
    let ?s = "s0\<lparr>priv_permits := N - of_nat k\<rparr>"
    have w: "waiting ?s = []" using w0 by simp
    have z: "0 \<le> priv_permits ?s" using assms(3) by simp
    have d': "is_double (priv_permits ?s + of_nat k)" using assms(2) by simp
    have b': "priv_permits ?s + of_nat k \<le> 2 ^ 53" using True by simp
    have m': "priv_permits ?s + of_nat k \<le> priv_maxPermits ?s" using m by simp
    from run64_releases_increment [OF w z d' b' m']
    have "run64 (replicate k Release) ?s = s0" using p by simp
    with a have r: "run64 (map Acquire rs @ replicate k Release) s0 = s0"
      by (simp add: run64_append)
    from r a p w0 show ?thesis by (simp add: permits_def)
  next
    case False
    then have big: "2 ^ 53 < N" by simp
    have four: "N / 4 \<in> \<int>"
      using assms(5) False double_multiple_of_four [OF assms(2)] by blast
    have pos: "0 < priv_permits s0"
      using big p by (meson less_trans zero_less_numeral zero_less_power)
    have dec: "decrement (priv_permits s0) = priv_permits s0"
      using minus_one_absorbed [OF assms(2) big four] p by (simp add: decrement_def)
    have a: "run64 (map Acquire rs) s0 = s0" using pos dec by (rule run64_acquires_absorbed)
    have "\<not> priv_permits s0 < priv_maxPermits s0" using p m by simp
    with w0 have "run64 (replicate k Release) s0 = s0" by (rule run64_releases_saturated)
    with a have r: "run64 (map Acquire rs @ replicate k Release) s0 = s0"
      by (simp add: run64_append)
    from r a p w0 False show ?thesis by (simp add: permits_def)
  qed
qed

theorem acquire64_release64_conservation_witness:
  "constructor (3/2) no_opts =
     Inr (\<lparr>priv_permits = 3/2, waiting = [], priv_maxPermits = 3/2, debug = False, name = []\<rparr>
          :: nat Semaphore) \<and>
   is_double (3/2) \<and> (3/2 :: rat) \<le> 2 ^ 53 \<and> (of_nat 1 :: rat) \<le> 3/2 \<and>
   length [7 :: nat] = 1 \<and>
   run64 (map Acquire [7 :: nat] @ replicate 1 Release)
       \<lparr>priv_permits = 3/2, waiting = [], priv_maxPermits = 3/2, debug = False, name = []\<rparr> =
     \<lparr>priv_permits = 3/2, waiting = [], priv_maxPermits = 3/2, debug = False, name = []\<rparr> \<and>
   permits (run64 (map Acquire [7 :: nat])
       \<lparr>priv_permits = 3/2, waiting = [], priv_maxPermits = 3/2, debug = False, name = []\<rparr>) = 1/2 \<and>
   run64 (map Acquire [7 :: nat] @ replicate 1 Release)
       \<lparr>priv_permits = 18014398509481984, waiting = [],
        priv_maxPermits = 18014398509481984, debug = False, name = []\<rparr> =
     \<lparr>priv_permits = 18014398509481984, waiting = [],
      priv_maxPermits = 18014398509481984, debug = False, name = []\<rparr>"
proof -
  have c: "constructor (3/2) no_opts =
     Inr (\<lparr>priv_permits = 3/2, waiting = [], priv_maxPermits = 3/2, debug = False, name = []\<rparr>
          :: nat Semaphore)"
    by (simp add: constructor_def no_opts_def)
  have d: "is_double (3/2)" by code_simp
  have b: "(3/2 :: rat) \<le> 2 ^ 53" by simp
  then have b': "(3/2 :: rat) \<le> 2 ^ 53 \<or> 2 ^ 54 \<le> (3/2 :: rat) \<or> (3/2 :: rat) / 4 \<in> \<int>"
    by (rule disjI1)
  have k: "(of_nat 1 :: rat) \<le> 3/2" by simp
  have l: "length [7 :: nat] = 1" by simp
  have c2: "constructor 18014398509481984 no_opts =
     Inr (\<lparr>priv_permits = 18014398509481984, waiting = [],
           priv_maxPermits = 18014398509481984, debug = False, name = []\<rparr> :: nat Semaphore)"
    by (simp add: constructor_def no_opts_def)
  have k2: "(of_nat 1 :: rat) \<le> 18014398509481984" by simp
  have "(2::rat) ^ 54 \<le> 18014398509481984" by simp
  then have b2: "(18014398509481984 :: rat) \<le> 2 ^ 53 \<or> 2 ^ 54 \<le> (18014398509481984 :: rat) \<or>
      (18014398509481984 :: rat) / 4 \<in> \<int>"
    by blast
  from acquire64_release64_conservation [OF c d k l b']
    acquire64_release64_conservation [OF c2 is_double_2p54 k2 l b2] c d b k l
  show ?thesis by simp
qed

text \<open>
  The round trip of C7 does not hold for every capacity \<open>N \<ge> 0\<close>. With \<open>N = 2^53 + 2\<close>,
  a double between \<open>2^53\<close> and \<open>2^54\<close> that is not a multiple of four,
  one acquire computes \<open>2^53 + 1\<close>, which rounds to \<open>2^53\<close>, and the release computes
  \<open>2^53 + 1\<close> again, which rounds to \<open>2^53\<close>: the counter does not come back to \<open>N\<close>.
\<close>

theorem conservation_rounding_counterexample:
  "is_double 9007199254740994 \<and> (0::rat) \<le> 9007199254740994 \<and>
   (of_nat 1 :: rat) \<le> 9007199254740994 \<and>
   history64 9007199254740994 no_opts [Acquire (1::nat), Release] =
     Inr \<lparr>priv_permits = 9007199254740992, waiting = [],
          priv_maxPermits = 9007199254740994, debug = False, name = []\<rparr> \<and>
   permits \<lparr>priv_permits = 9007199254740992, waiting = [] :: nat list,
            priv_maxPermits = 9007199254740994, debug = False, name = []\<rparr>
     \<noteq> 9007199254740994"
  using round_double_2p53_plus_1 is_double_2p53_plus_2
  by (simp add: history64_def constructor_def no_opts_def permits_def
        acquire64_def release64_def decrement_def increment_def)

end
